theory Spec2Isabelle
  imports Main "HOL-Library.Word"
begin

unbundle bit_operations_syntax

section \<open>Python values of buildcatrust/der\_x509.py\<close>

text \<open>
  A Python \<open>bytes\<close> or \<open>bytearray\<close> is a list of 8-bit words; \<open>unat\<close> and \<open>uint\<close>
  read one element as the Python int it is. Python ints are \<open>int\<close>; the values the
  decoders compute from bytes (lengths, slice bounds) are never negative and are
  \<open>nat\<close>, so that a slice \<open>b[:n]\<close> is \<open>take n b\<close> and \<open>b[n:]\<close> is \<open>drop n b\<close>
  (both clamp at the end of the list, as Python slices do).
  Every exception the module can raise is a value of \<open>error\<close>; a function that can
  raise returns \<open>error + 'a\<close> with \<open>Inl\<close> for the exception.
\<close>

type_synonym byte = "8 word"
type_synonym bytes = "byte list"

datatype error =
    IndexError
  | AssertionError
  | ValueError
  | OverflowError
  | TypeError
  | UnicodeDecodeError
  | UnboundLocalError
  | BinasciiError

text \<open>Sequencing of calls that may raise: the first exception propagates.\<close>

definition and_then :: "error + 'a \<Rightarrow> ('a \<Rightarrow> error + 'b) \<Rightarrow> error + 'b" where
  "and_then m f = (case m of Inl e \<Rightarrow> Inl e | Inr x \<Rightarrow> f x)"

lemma and_then_simps [simp]:
  "and_then (Inl e) f = Inl e"
  "and_then (Inr x) f = f x"
  by (simp_all add: and_then_def)

lemma and_then_InrE:
  assumes "and_then m f = Inr y"
  obtains x where "m = Inr x" and "f x = Inr y"
  using assms by (cases m) simp_all

text \<open>\<open>assert c\<close>: raises AssertionError unless \<open>c\<close> holds.\<close>

definition py_assert :: "bool \<Rightarrow> error + unit" where
  "py_assert c = (if c then Inr () else Inl AssertionError)"


text \<open>\<open>bytearray([n])\<close> and \<open>buf.append(n)\<close>: ValueError unless \<open>0 <= n < 256\<close>.\<close>

definition bytearray1 :: "int \<Rightarrow> error + bytes" where
  "bytearray1 n = (if 0 \<le> n \<and> n < 256 then Inr [word_of_int n] else Inl ValueError)"

text \<open>\<open>int.from_bytes(bs, "big")\<close>.\<close>

definition from_bytes :: "bytes \<Rightarrow> nat" where
  "from_bytes bs = foldl (\<lambda>acc b. acc * 256 + unat b) 0 bs"

text \<open>\<open>n.to_bytes(k, "big")\<close>: OverflowError when \<open>n\<close> is negative or needs more than
  \<open>k\<close> bytes.\<close>

fun to_bytes_big :: "nat \<Rightarrow> int \<Rightarrow> bytes" where
  "to_bytes_big 0 n = []"
| "to_bytes_big (Suc k) n = to_bytes_big k (n div 256) @ [word_of_int (n mod 256)]"

definition to_bytes :: "int \<Rightarrow> nat \<Rightarrow> error + bytes" where
  "to_bytes n k = (if n < 0 \<or> 256 ^ k \<le> n then Inl OverflowError else Inr (to_bytes_big k n))"

text \<open>\<open>n.bit_length()\<close>: the number of bits of \<open>|n|\<close>.\<close>

fun bit_length_nat :: "nat \<Rightarrow> nat" where
  "bit_length_nat n = (if n = 0 then 0 else Suc (bit_length_nat (n div 2)))"

declare bit_length_nat.simps [simp del]

definition bit_length :: "int \<Rightarrow> nat" where
  "bit_length n = bit_length_nat (nat \<bar>n\<bar>)"

section \<open>Length and integer codec\<close>

text \<open>
  \<open>_decode_len(i)\<close>: \<open>i[0]\<close> raises IndexError on empty input. The long form is taken
  for a first octet strictly above 0x80; the slices clamp, so missing length octets
  are not an error.
\<close>

definition decode_len :: "bytes \<Rightarrow> error + (nat \<times> bytes \<times> bytes)" where
  "decode_len i =
     (case i of
        [] \<Rightarrow> Inl IndexError
      | i0 # _ \<Rightarrow>
          if unat i0 > 0x80 then
            let length_length = unat (i0 AND 0x7F) in
            Inr (from_bytes (take length_length (drop 1 i)),
                 take (1 + length_length) i,
                 drop (1 + length_length) i)
          else Inr (unat i0, take 1 i, drop 1 i))"

lemma decode_len_shorter:
  "decode_len i = Inr (n, lb, buf) \<Longrightarrow> length buf < length i"
  by (cases i) (auto simp: decode_len_def Let_def split: if_splits)

text \<open>\<open>_encode_len(n)\<close>.\<close>

definition encode_len :: "int \<Rightarrow> error + bytes" where
  "encode_len n =
     (if n < 0x80 then bytearray1 n
      else
        let length_bytes = (bit_length n + 7) div 8 in
        and_then (py_assert (length_bytes < 0x80)) (\<lambda>_.
        and_then (bytearray1 (int length_bytes OR 0x80)) (\<lambda>out.
        and_then (to_bytes n length_bytes) (\<lambda>bs.
        Inr (out @ bs)))))"

text \<open>
  \<open>_encode_int(n)\<close>: the base-128 encoding of an OID arc. The loop appends
  \<open>(n & 0x7F) | 0x80\<close>, a value between 128 and 255, so \<open>append\<close> cannot raise there.
\<close>

function encode_int_loop :: "int \<Rightarrow> bytes \<Rightarrow> bytes" where
  "encode_int_loop n nbuf =
     (if n > 0
      then encode_int_loop (drop_bit 7 n) (nbuf @ [word_of_int ((n AND 0x7F) OR 0x80)])
      else nbuf)"
  by pat_completeness auto
termination
proof (relation "measure (\<lambda>(n, nbuf). nat n)")
  show "wf (measure (\<lambda>(n, nbuf). nat n))" by simp
next
  fix n :: int and nbuf :: bytes
  assume "0 < n"
  then have "n div 128 < n" by simp
  then show "((drop_bit 7 n, nbuf @ [word_of_int ((n AND 0x7F) OR 0x80)]), (n, nbuf))
      \<in> measure (\<lambda>(n, nbuf). nat n)"
    using \<open>0 < n\<close> by (simp add: drop_bit_eq_div)
qed

declare encode_int_loop.simps [simp del]

definition encode_int :: "int \<Rightarrow> error + bytes" where
  "encode_int n =
     (if n < 0x80 then bytearray1 n
      else
        case encode_int_loop n [] of
          [] \<Rightarrow> Inl IndexError
        | b0 # bs \<Rightarrow> Inr (rev ((b0 AND 0x7F) # bs)))"

text \<open>
  \<open>_decode_int(b)\<close>. The loop reads \<open>b[pos]\<close> for \<open>pos = 0, 1, ...\<close>; the model's
  second argument is \<open>b[pos:]\<close>, and running off the end is the IndexError of
  \<open>b[pos]\<close>.
\<close>

fun decode_int_loop :: "int \<Rightarrow> bytes \<Rightarrow> error + (int \<times> bytes)" where
  "decode_int_loop n [] = Inl IndexError"
| "decode_int_loop n (x # xs) =
     (let n' = push_bit 7 n OR uint (x AND 0x7F) in
      if x AND 0x80 = 0 then Inr (n', xs) else decode_int_loop n' xs)"

definition decode_int :: "bytes \<Rightarrow> error + (int \<times> bytes)" where
  "decode_int b =
     (case b of
        [] \<Rightarrow> Inl IndexError
      | b0 # _ \<Rightarrow> if unat b0 < 0x80 then Inr (uint b0, drop 1 b) else decode_int_loop 0 b)"

section \<open>TLV walker\<close>

text \<open>\<open>_dumb_decode(i)\<close>: one tag octet, the length, and the slice of the value.\<close>

definition dumb_decode :: "bytes \<Rightarrow> error + ((byte \<times> bytes) \<times> bytes)" where
  "dumb_decode i =
     (case i of
        [] \<Rightarrow> Inl IndexError
      | tag # _ \<Rightarrow>
          and_then (decode_len (drop 1 i)) (\<lambda>(der_len, length_bytes, buf).
          Inr ((tag, take 1 i @ length_bytes @ take der_len buf), drop der_len buf)))"

section \<open>ObjectID\<close>

text \<open>
  The dataclass \<open>ObjectID(name: Optional[str], oid: List[int])\<close>. The class defines
  \<open>__eq__\<close> and \<open>__hash__\<close> itself, so the dataclass decorator leaves both alone.
\<close>

record ObjectID =
  name :: "string option"
  oid :: "int list"

text \<open>\<open>ObjectID.__eq__(self, other)\<close> for an \<open>other\<close> that is an ObjectID.\<close>

definition ObjectID_eq :: "ObjectID \<Rightarrow> ObjectID \<Rightarrow> bool" where
  "ObjectID_eq self other = (oid self = oid other)"

text \<open>
  Python's builtin \<open>hash\<close> applied to a list: lists are unhashable, the call raises
  TypeError whatever the elements are.
\<close>

definition hash_list :: "int list \<Rightarrow> error + int" where
  "hash_list xs = Inl TypeError"

text \<open>\<open>ObjectID.__hash__(self)\<close>: \<open>return hash(self.oid)\<close>, with \<open>oid\<close> a list.\<close>

definition ObjectID_hash :: "ObjectID \<Rightarrow> error + int" where
  "ObjectID_hash self = hash_list (oid self)"

text \<open>
  \<open>ObjectID.as_der(self)\<close>. \<open>self.oid[0]\<close> and \<open>self.oid[1]\<close> raise IndexError on a
  shorter list; the first content octet \<open>40 * oid[0] + oid[1]\<close> is appended as one
  byte, a ValueError when it is not below 256. The \<open>for\<close> loop over \<open>self.oid[2:]\<close>
  extends \<open>buf\<close> arc by arc.
\<close>

fun extend_arcs :: "bytes \<Rightarrow> int list \<Rightarrow> error + bytes" where
  "extend_arcs buf [] = Inr buf"
| "extend_arcs buf (n # ns) =
     (case encode_int n of Inl e \<Rightarrow> Inl e | Inr bs \<Rightarrow> extend_arcs (buf @ bs) ns)"

definition ObjectID_as_der :: "ObjectID \<Rightarrow> error + bytes" where
  "ObjectID_as_der self =
     (case oid self of
        a0 # a1 # arcs \<Rightarrow>
          and_then (bytearray1 (40 * a0 + a1)) (\<lambda>buf.
          and_then (extend_arcs buf arcs) (\<lambda>buf.
          and_then (encode_len (int (length buf))) (\<lambda>len_bytes.
          Inr ([0x06] @ len_bytes @ buf))))
      | _ \<Rightarrow> Inl IndexError)"

lemma decode_int_shorter:
  "decode_int b = Inr (n, b') \<Longrightarrow> length b' < length b"
proof -
  have loop: "decode_int_loop a xs = Inr (n, b') \<Longrightarrow> length b' < length xs" for a xs
    by (induction a xs rule: decode_int_loop.induct) (auto simp: Let_def split: if_splits)
  assume "decode_int b = Inr (n, b')"
  then show ?thesis
    by (cases b) (auto simp: decode_int_def simp del: decode_int_loop.simps
        split: if_splits dest: loop)
qed

text \<open>
  \<open>ObjectID.from_der(b)\<close>. The \<open>while b:\<close> loop appends one arc per call of
  \<open>_decode_int\<close>; it ends because every successful call returns a shorter rest.
\<close>

function decode_arcs :: "int list \<Rightarrow> bytes \<Rightarrow> error + int list" where
  "decode_arcs arcs b =
     (if b = [] then Inr arcs
      else case decode_int b of
             Inl e \<Rightarrow> Inl e
           | Inr (oid_seg, b') \<Rightarrow> decode_arcs (arcs @ [oid_seg]) b')"
  by pat_completeness auto
termination
  by (relation "measure (\<lambda>(arcs, b). length b)") (auto dest: decode_int_shorter)

declare decode_arcs.simps [simp del]

definition ObjectID_from_der :: "bytes \<Rightarrow> error + (ObjectID \<times> bytes)" where
  "ObjectID_from_der b =
     (case b of
        [] \<Rightarrow> Inl IndexError
      | b0 # _ \<Rightarrow>
          and_then (py_assert (b0 = 0x06)) (\<lambda>_.
          and_then (decode_len (drop 1 b)) (\<lambda>(oid_len, _, b).
          let trailing = drop oid_len b; b = take oid_len b in
          case b of
            [] \<Rightarrow> Inl IndexError
          | c # _ \<Rightarrow>
              let arc0 = int (min (unat c div 40) 2);
                  arc1 = int (unat c) - arc0 * 40
              in and_then (decode_arcs [arc0, arc1] (drop 1 b)) (\<lambda>arcs.
                 Inr (\<lparr>name = None, oid = arcs\<rparr>, trailing)))))"

section \<open>TBSCertificate and Certificate\<close>

record TBSCertificate =
  serial_number :: bytes
  signature :: bytes
  issuer :: bytes
  validity :: bytes
  subject :: bytes
  subject_public_key_info :: bytes
  version :: "bytes option"
  issuer_unique_id :: "bytes option"
  subject_unique_id :: "bytes option"
  extensions :: "bytes option"

text \<open>
  The statement pair \<open>(tag, dec_bytes), b = _dumb_decode(b); assert tag == want\<close>,
  which both decoders repeat for every mandatory field.
\<close>

definition read_expect :: "byte \<Rightarrow> bytes \<Rightarrow> error + (bytes \<times> bytes)" where
  "read_expect want b =
     and_then (dumb_decode b) (\<lambda>((tag, dec_bytes), b).
     and_then (py_assert (tag = want)) (\<lambda>_.
     Inr (dec_bytes, b)))"

text \<open>
  One optional trailing field of \<open>TBSCertificate.from_der\<close>, on the local variables
  \<open>(tag, dec_bytes, b)\<close>:
  \<^verbatim>\<open>if tag == want: data[field] = dec_bytes; if b: (tag, dec_bytes), b = _dumb_decode(b)\<close>.
  The result is the field (when stored) and the variables afterwards.
\<close>

definition optional_field ::
  "byte \<Rightarrow> byte \<times> bytes \<times> bytes \<Rightarrow> error + (bytes option \<times> byte \<times> bytes \<times> bytes)" where
  "optional_field want st =
     (case st of (tag, dec_bytes, b) \<Rightarrow>
        if tag = want then
          if b \<noteq> [] then
            and_then (dumb_decode b) (\<lambda>((tag', dec_bytes'), b').
            Inr (Some dec_bytes, tag', dec_bytes', b'))
          else Inr (Some dec_bytes, tag, dec_bytes, b)
        else Inr (None, tag, dec_bytes, b))"

text \<open>\<open>TBSCertificate.from_der(b)\<close>.\<close>

definition TBSCertificate_from_der :: "bytes \<Rightarrow> error + (TBSCertificate \<times> bytes)" where
  "TBSCertificate_from_der b =
     (case b of
        [] \<Rightarrow> Inl IndexError
      | b0 # _ \<Rightarrow>
          and_then (py_assert (b0 = 0x30)) (\<lambda>_.
          and_then (decode_len (drop 1 b)) (\<lambda>(cert_len, _, b).
          let rem = drop cert_len b; b = take cert_len b in
          and_then (dumb_decode b) (\<lambda>((tag, dec_bytes), b).
          and_then
            (if tag = 0xA0 then
               and_then (dumb_decode b) (\<lambda>((tag', dec_bytes'), b').
               Inr (Some dec_bytes, tag', dec_bytes', b'))
             else Inr (None, tag, dec_bytes, b)) (\<lambda>(version, tag, dec_bytes, b).
          and_then (py_assert (tag = 0x02)) (\<lambda>_.
          let serial_number = dec_bytes in
          and_then (read_expect 0x30 b) (\<lambda>(signature, b).
          and_then (read_expect 0x30 b) (\<lambda>(issuer, b).
          and_then (read_expect 0x30 b) (\<lambda>(validity, b).
          and_then (read_expect 0x30 b) (\<lambda>(subject, b).
          and_then (read_expect 0x30 b) (\<lambda>(subject_public_key_info, b).
          and_then
            (if b \<noteq> [] then
               and_then (dumb_decode b) (\<lambda>((tag, dec_bytes), b).
               and_then (optional_field 0xA1 (tag, dec_bytes, b)) (\<lambda>(issuer_unique_id, st).
               and_then (optional_field 0xA2 st) (\<lambda>(subject_unique_id, st).
               and_then (optional_field 0xA3 st) (\<lambda>(extensions, st).
               Inr (issuer_unique_id, subject_unique_id, extensions)))))
             else Inr (None, None, None)) (\<lambda>(issuer_unique_id, subject_unique_id, extensions).
          Inr (\<lparr>serial_number = serial_number, signature = signature, issuer = issuer,
                 validity = validity, subject = subject,
                 subject_public_key_info = subject_public_key_info,
                 version = version, issuer_unique_id = issuer_unique_id,
                 subject_unique_id = subject_unique_id, extensions = extensions\<rparr>,
               rem)))))))))))))"

record Certificate =
  tbs_certificate :: TBSCertificate
  signature_algorithm :: bytes
  signature_value :: bytes

text \<open>\<open>Certificate.from_der(b)\<close>.\<close>

definition Certificate_from_der :: "bytes \<Rightarrow> error + (Certificate \<times> bytes)" where
  "Certificate_from_der b =
     (case b of
        [] \<Rightarrow> Inl IndexError
      | b0 # _ \<Rightarrow>
          and_then (py_assert (b0 = 0x30)) (\<lambda>_.
          and_then (decode_len (drop 1 b)) (\<lambda>(cert_len, _, b).
          let rem = drop cert_len b; b = take cert_len b in
          and_then (TBSCertificate_from_der b) (\<lambda>(tbs_certificate, b).
          and_then (read_expect 0x30 b) (\<lambda>(signature_algorithm, b).
          and_then (read_expect 0x03 b) (\<lambda>(signature_value, b).
          and_then (py_assert (b = [])) (\<lambda>_.
          Inr (\<lparr>tbs_certificate = tbs_certificate,
                 signature_algorithm = signature_algorithm,
                 signature_value = signature_value\<rparr>,
               rem))))))))"

section \<open>PEMBlock, OpenSSLCertAux and the trusted-certificate functions\<close>

text \<open>
  The dataclass \<open>PEMBlock(name: str, content: bytes)\<close>; its \<open>name\<close> field is
  \<open>block_name\<close> here, \<open>name\<close> being ObjectID's.
\<close>

record PEMBlock =
  block_name :: string
  content :: bytes

record OpenSSLCertAux =
  trust :: "ObjectID list"
  reject :: "ObjectID list"

text \<open>
  Equality of two OpenSSLCertAux values (the dataclass's generated \<open>__eq__\<close>): the
  two lists are compared element by element with \<open>ObjectID.__eq__\<close>.
\<close>

definition OpenSSLCertAux_eq :: "OpenSSLCertAux \<Rightarrow> OpenSSLCertAux \<Rightarrow> bool" where
  "OpenSSLCertAux_eq self other =
     (list_all2 ObjectID_eq (trust self) (trust other) \<and>
      list_all2 ObjectID_eq (reject self) (reject other))"

text \<open>\<open>OpenSSLCertAux.encode_oids(oids, tag)\<close>; \<open>extend_oids\<close> is its \<open>for\<close> loop.\<close>

fun extend_oids :: "bytes \<Rightarrow> ObjectID list \<Rightarrow> error + bytes" where
  "extend_oids buf [] = Inr buf"
| "extend_oids buf (x # xs) =
     (case ObjectID_as_der x of Inl e \<Rightarrow> Inl e | Inr bs \<Rightarrow> extend_oids (buf @ bs) xs)"

definition encode_oids :: "ObjectID list \<Rightarrow> byte \<Rightarrow> error + bytes" where
  "encode_oids oids tag =
     and_then (extend_oids [] oids) (\<lambda>buf.
     and_then (encode_len (int (length buf))) (\<lambda>len_bytes.
     Inr ([tag] @ len_bytes @ buf)))"

text \<open>\<open>OpenSSLCertAux.as_der(self)\<close>.\<close>

definition OpenSSLCertAux_as_der :: "OpenSSLCertAux \<Rightarrow> error + bytes" where
  "OpenSSLCertAux_as_der self =
     and_then (encode_oids (trust self) 0x30) (\<lambda>buf.
     and_then
       (if reject self \<noteq> [] then
          and_then (encode_oids (reject self) 0xA0) (\<lambda>r. Inr (buf @ r))
        else Inr buf) (\<lambda>buf.
     and_then (encode_len (int (length buf))) (\<lambda>len_bytes.
     Inr ([0x30] @ len_bytes @ buf))))"

lemma ObjectID_from_der_shorter:
  "ObjectID_from_der b = Inr (x, trailing) \<Longrightarrow> length trailing < length b"
  by (cases b)
    (auto simp: ObjectID_from_der_def and_then_def py_assert_def decode_len_def Let_def
      split: if_splits sum.splits list.splits)

text \<open>
  The loops \<open>while trust_b: trust_oid, trust_b = ObjectID.from_der(trust_b);
  trust.append(trust_oid)\<close> of \<open>OpenSSLCertAux.from_der\<close>.
\<close>

function decode_oids :: "ObjectID list \<Rightarrow> bytes \<Rightarrow> error + ObjectID list" where
  "decode_oids oids b =
     (if b = [] then Inr oids
      else case ObjectID_from_der b of
             Inl e \<Rightarrow> Inl e
           | Inr (x, b') \<Rightarrow> decode_oids (oids @ [x]) b')"
  by pat_completeness auto
termination
  by (relation "measure (\<lambda>(oids, b). length b)") (auto dest: ObjectID_from_der_shorter)

declare decode_oids.simps [simp del]

text \<open>\<open>OpenSSLCertAux.from_der(b)\<close>.\<close>

definition OpenSSLCertAux_from_der :: "bytes \<Rightarrow> error + (OpenSSLCertAux \<times> bytes)" where
  "OpenSSLCertAux_from_der b =
     (case b of
        [] \<Rightarrow> Inl IndexError
      | b0 # _ \<Rightarrow>
          and_then (py_assert (b0 = 0x30)) (\<lambda>_.
          and_then (decode_len (drop 1 b)) (\<lambda>(aux_len, _, b).
          let rem = drop aux_len b; b = take aux_len b in
          case b of
            [] \<Rightarrow> Inl IndexError
          | t0 # _ \<Rightarrow>
              and_then (py_assert (t0 = 0x30)) (\<lambda>_.
              and_then (decode_len (drop 1 b)) (\<lambda>(trust_len, _, b).
              let trust_b = take trust_len b; b = drop trust_len b in
              and_then (decode_oids [] trust_b) (\<lambda>trust.
              and_then
                (if b \<noteq> [] \<and> hd b = 0xA0 then
                   and_then (decode_len (drop 1 b)) (\<lambda>(reject_len, _, b).
                   let reject_b = take reject_len b in
                   decode_oids [] reject_b)
                 else Inr []) (\<lambda>reject.
              Inr (\<lparr>trust = trust, reject = reject\<rparr>, rem))))))))"

text \<open>\<open>to_trusted_certificate(cert, certaux)\<close> and \<open>parse_trusted_certificate(pb)\<close>.\<close>

definition to_trusted_certificate :: "bytes \<Rightarrow> OpenSSLCertAux \<Rightarrow> error + PEMBlock" where
  "to_trusted_certificate cert certaux =
     and_then (OpenSSLCertAux_as_der certaux) (\<lambda>aux_der.
     Inr \<lparr>block_name = ''TRUSTED CERTIFICATE'', content = cert @ aux_der\<rparr>)"

definition parse_trusted_certificate ::
  "PEMBlock \<Rightarrow> error + (bytes \<times> OpenSSLCertAux \<times> bytes)" where
  "parse_trusted_certificate pb =
     and_then (py_assert (block_name pb = ''TRUSTED CERTIFICATE'')) (\<lambda>_.
     and_then (Certificate_from_der (content pb)) (\<lambda>(cert, trailing).
     let cert_bytes = take (length (content pb) - length trailing) (content pb) in
     and_then (OpenSSLCertAux_from_der trailing) (\<lambda>(cert_aux, trailing).
     Inr (cert_bytes, cert_aux, trailing))))"

section \<open>Extension encoders\<close>

record ExtendedKeyUsages =
  oids :: "ObjectID list"

text \<open>\<open>ExtendedKeyUsages.as_der(self)\<close>: the loop is the one of \<open>encode_oids\<close>.\<close>

definition ExtendedKeyUsages_as_der :: "ExtendedKeyUsages \<Rightarrow> error + bytes" where
  "ExtendedKeyUsages_as_der self =
     and_then (extend_oids [] (oids self)) (\<lambda>buf.
     and_then (encode_len (int (length buf))) (\<lambda>len_bytes.
     Inr ([0x30] @ len_bytes @ buf)))"

text \<open>
  The dataclass \<open>CertExtension(ext_id, critical, extension: DerSerializable)\<close>.
  \<open>DerSerializable\<close> is a protocol: any value with an \<open>as_der\<close> method. The record is
  polymorphic in the extension's type, and \<open>CertExtension_as_der\<close> takes that type's
  \<open>as_der\<close> as its first argument.
\<close>

record 'e CertExtension =
  ext_id :: ObjectID
  critical :: bool
  extension :: 'e

text \<open>\<open>CertExtension.as_der(self)\<close>.\<close>

definition CertExtension_as_der ::
  "('e \<Rightarrow> error + bytes) \<Rightarrow> 'e CertExtension \<Rightarrow> error + bytes" where
  "CertExtension_as_der as_der self =
     and_then (ObjectID_as_der (ext_id self)) (\<lambda>buf.
     let buf = (if critical self then buf @ [0x01, 0x01, 0xFF] else buf) in
     and_then (as_der (extension self)) (\<lambda>extension_der.
     let buf = buf @ [0x04] in
     and_then (encode_int (int (length extension_der))) (\<lambda>n.
     let buf = buf @ n @ extension_der in
     and_then (encode_len (int (length buf))) (\<lambda>len_bytes.
     Inr ([0x30] @ len_bytes @ buf)))))"

section \<open>DistinguishedName\<close>

text \<open>
  A Python \<open>str\<close> decoded from bytes is a list of Unicode code points.
  \<open>bytes.decode("utf-8")\<close> is the strict UTF-8 decoder: one to four octets per code
  point, no overlong form, no surrogate, nothing above U+10FFFF; anything else raises
  UnicodeDecodeError.
\<close>

type_synonym codepoints = "nat list"

definition utf8_width :: "byte \<Rightarrow> nat" where
  "utf8_width b0 =
     (if unat b0 < 0x80 then 1
      else if 0xC2 \<le> unat b0 \<and> unat b0 \<le> 0xDF then 2
      else if 0xE0 \<le> unat b0 \<and> unat b0 \<le> 0xEF then 3
      else if 0xF0 \<le> unat b0 \<and> unat b0 \<le> 0xF4 then 4
      else 0)"

definition utf8_cont :: "byte \<Rightarrow> bool" where
  "utf8_cont b = (0x80 \<le> unat b \<and> unat b \<le> 0xBF)"

fun utf8_codepoint :: "bytes \<Rightarrow> nat option" where
  "utf8_codepoint [b0] = (if unat b0 < 0x80 then Some (unat b0) else None)"
| "utf8_codepoint [b0, b1] =
     (if 0xC2 \<le> unat b0 \<and> unat b0 \<le> 0xDF \<and> utf8_cont b1
      then Some ((unat b0 mod 32) * 64 + unat b1 mod 64) else None)"
| "utf8_codepoint [b0, b1, b2] =
     (let c = (unat b0 mod 16) * 4096 + (unat b1 mod 64) * 64 + unat b2 mod 64 in
      if 0xE0 \<le> unat b0 \<and> unat b0 \<le> 0xEF \<and> utf8_cont b1 \<and> utf8_cont b2 \<and>
         0x800 \<le> c \<and> \<not> (0xD800 \<le> c \<and> c \<le> 0xDFFF)
      then Some c else None)"
| "utf8_codepoint [b0, b1, b2, b3] =
     (let c = (unat b0 mod 8) * 262144 + (unat b1 mod 64) * 4096 + (unat b2 mod 64) * 64
              + unat b3 mod 64 in
      if 0xF0 \<le> unat b0 \<and> unat b0 \<le> 0xF4 \<and> utf8_cont b1 \<and> utf8_cont b2 \<and> utf8_cont b3 \<and>
         0x10000 \<le> c \<and> c \<le> 0x10FFFF
      then Some c else None)"
| "utf8_codepoint _ = None"

function utf8_decode :: "bytes \<Rightarrow> error + codepoints" where
  "utf8_decode b =
     (case b of
        [] \<Rightarrow> Inr []
      | b0 # _ \<Rightarrow>
          (case utf8_codepoint (take (utf8_width b0) b) of
             None \<Rightarrow> Inl UnicodeDecodeError
           | Some c \<Rightarrow>
               (case utf8_decode (drop (max 1 (utf8_width b0)) b) of
                  Inl e \<Rightarrow> Inl e
                | Inr cs \<Rightarrow> Inr (c # cs))))"
  by pat_completeness auto
termination
  by (relation "measure length") auto

declare utf8_decode.simps [simp del]

record DistinguishedName =
  bits :: "(ObjectID \<times> codepoints) list list"

text \<open>
  One pass of the inner \<open>while set_b:\<close> loop of \<open>DistinguishedName.from_der\<close>: from
  \<open>set_b\<close> to the decoded pair and the new \<open>set_b\<close>. The \<open>print(seq_b[0])\<close> writes to
  standard output; what is modelled of it is the IndexError of \<open>seq_b[0]\<close>. The value
  slice is \<open>seq_b[:seq_len]\<close>, as the source has it.
\<close>

definition dn_attribute :: "bytes \<Rightarrow> error + ((ObjectID \<times> codepoints) \<times> bytes)" where
  "dn_attribute set_b =
     (case set_b of
        [] \<Rightarrow> Inl IndexError
      | s0 # _ \<Rightarrow>
          and_then (py_assert (s0 = 0x30)) (\<lambda>_.
          and_then (decode_len (drop 1 set_b)) (\<lambda>(seq_len, _, seq_b).
          let set_b = drop seq_len seq_b; seq_b = take seq_len seq_b in
          and_then (ObjectID_from_der seq_b) (\<lambda>(seq_oid, seq_b).
          case seq_b of
            [] \<Rightarrow> Inl IndexError
          | t # _ \<Rightarrow>
              and_then (py_assert (t \<in> {0x13, 0x14, 0x0C, 0x16, 0x1E})) (\<lambda>_.
              and_then (decode_len (drop 1 seq_b)) (\<lambda>(part_len, _, seq_b).
              let part_b = take seq_len seq_b; seq_b = drop seq_len seq_b in
              and_then (py_assert (seq_b = [])) (\<lambda>_.
              and_then (utf8_decode part_b) (\<lambda>s.
              Inr ((seq_oid, s), set_b)))))))))"

lemma dn_attribute_shorter:
  "dn_attribute set_b = Inr (p, set_b') \<Longrightarrow> length set_b' < length set_b"
  by (cases set_b)
    (auto simp: dn_attribute_def Let_def elim!: and_then_InrE dest!: decode_len_shorter
      split: list.splits)

function dn_set_bits ::
  "(ObjectID \<times> codepoints) list \<Rightarrow> bytes \<Rightarrow> error + (ObjectID \<times> codepoints) list" where
  "dn_set_bits set_bits set_b =
     (if set_b = [] then Inr set_bits
      else case dn_attribute set_b of
             Inl e \<Rightarrow> Inl e
           | Inr (p, set_b') \<Rightarrow> dn_set_bits (set_bits @ [p]) set_b')"
  by pat_completeness auto
termination
  by (relation "measure (\<lambda>(set_bits, set_b). length set_b)") (auto dest: dn_attribute_shorter)

declare dn_set_bits.simps [simp del]

text \<open>One pass of the outer \<open>while b:\<close> loop: one SET, from \<open>b\<close> to its pairs and the new \<open>b\<close>.\<close>

definition dn_set :: "bytes \<Rightarrow> error + ((ObjectID \<times> codepoints) list \<times> bytes)" where
  "dn_set b =
     (case b of
        [] \<Rightarrow> Inl IndexError
      | b0 # _ \<Rightarrow>
          and_then (py_assert (b0 = 0x31)) (\<lambda>_.
          and_then (decode_len (drop 1 b)) (\<lambda>(set_len, _, set_b).
          let b = drop set_len set_b; set_b = take set_len set_b in
          and_then (dn_set_bits [] set_b) (\<lambda>set_bits.
          Inr (set_bits, b)))))"

lemma dn_set_shorter: "dn_set b = Inr (s, b') \<Longrightarrow> length b' < length b"
  by (cases b)
    (auto simp: dn_set_def Let_def elim!: and_then_InrE dest!: decode_len_shorter)

function dn_bits ::
  "(ObjectID \<times> codepoints) list list \<Rightarrow> bytes \<Rightarrow> error + (ObjectID \<times> codepoints) list list" where
  "dn_bits acc b =
     (if b = [] then Inr acc
      else case dn_set b of
             Inl e \<Rightarrow> Inl e
           | Inr (s, b') \<Rightarrow> dn_bits (acc @ [s]) b')"
  by pat_completeness auto
termination
  by (relation "measure (\<lambda>(acc, b). length b)") (auto dest: dn_set_shorter)

declare dn_bits.simps [simp del]

text \<open>\<open>DistinguishedName.from_der(b)\<close>.\<close>

definition DistinguishedName_from_der :: "bytes \<Rightarrow> error + (DistinguishedName \<times> bytes)" where
  "DistinguishedName_from_der b =
     (case b of
        [] \<Rightarrow> Inl IndexError
      | b0 # _ \<Rightarrow>
          and_then (py_assert (b0 = 0x30)) (\<lambda>_.
          and_then (decode_len (drop 1 b)) (\<lambda>(dn_len, _, b).
          let rem = drop dn_len b; b = take dn_len b in
          and_then (dn_bits [] b) (\<lambda>bits.
          Inr (\<lparr>bits = bits\<rparr>, rem)))))"

section \<open>PEM armor: decode\_from\_file\<close>

text \<open>
  A text stream is the list of the lines still to be read, each with its line end.
  The two patterns are anchored with \<open>^\<close> and \<open>$\<close>, and \<open>$\<close> matches at the end of
  the line or just before a final newline: a line matches when it, or it without its
  final newline, is the marker.
\<close>

definition chomp :: "string \<Rightarrow> string" where
  "chomp ln = (if ln \<noteq> [] \<and> last ln = CHR 0x0A then butlast ln else ln)"

text \<open>\<open>re.match(r"^-----BEGIN ([^-]+)-----$", ln)\<close>: the label (group 1) of a match.\<close>

definition begin_label :: "string \<Rightarrow> string option" where
  "begin_label ln =
     (let core = chomp ln;
          label = take (length core - 16) (drop 11 core)
      in if core = ''-----BEGIN '' @ label @ ''-----'' \<and> label \<noteq> [] \<and> CHR ''-'' \<notin> set label
         then Some label else None)"

text \<open>\<open>re.match(f"^-----END {re.escape(name)}-----$", ln)\<close>: whether it matches.\<close>

definition is_end :: "string \<Rightarrow> string \<Rightarrow> bool" where
  "is_end label ln = (chomp ln = ''-----END '' @ label @ ''-----'')"

text \<open>
  The first loop: lines before the BEGIN marker are collected in \<open>prefix\<close>. The result
  is the prefix, the label when a marker was found, and the lines not yet read.
\<close>

fun scan_begin :: "string list \<Rightarrow> string list \<Rightarrow> string list \<times> string option \<times> string list" where
  "scan_begin prefix [] = (prefix, None, [])"
| "scan_begin prefix (ln # fp) =
     (case begin_label ln of
        Some label \<Rightarrow> (prefix, Some label, fp)
      | None \<Rightarrow> scan_begin (prefix @ [ln]) fp)"

text \<open>
  The second loop, collecting the body lines (\<open>bits\<close> in the source). \<open>end_match\<close> is assigned only inside the loop: it is unbound
  (\<open>None\<close>) until a line has been read, then holds whether that line matched.
\<close>

fun scan_end ::
  "string \<Rightarrow> string list \<Rightarrow> bool option \<Rightarrow> string list
     \<Rightarrow> string list \<times> bool option \<times> string list" where
  "scan_end label body end_match [] = (body, end_match, [])"
| "scan_end label body end_match (ln # fp) =
     (if is_end label ln then (body, Some True, fp)
      else scan_end label (body @ [ln]) (Some False) fp)"

text \<open>
  \<open>PEMBlock.decode_from_file(fp)\<close>, with \<open>base64.b64decode\<close> as a parameter. The
  result is the returned value (\<open>None\<close> for Python's None) or the exception, and the
  lines left in the stream.
\<close>

definition decode_from_file ::
  "(string \<Rightarrow> error + bytes) \<Rightarrow> string list
     \<Rightarrow> (error + (string \<times> PEMBlock) option) \<times> string list" where
  "decode_from_file b64decode fp =
     (case scan_begin [] fp of
        (prefix, None, fp) \<Rightarrow> (Inr None, fp)
      | (prefix, Some label, fp) \<Rightarrow>
          (case scan_end label [] None fp of
             (body, None, fp) \<Rightarrow> (Inl UnboundLocalError, fp)
           | (body, Some False, fp) \<Rightarrow> (Inr None, fp)
           | (body, Some True, fp) \<Rightarrow>
               (and_then (b64decode (concat body)) (\<lambda>decoded.
                Inr (Some (concat prefix, \<lparr>block_name = label, content = decoded\<rparr>))), fp)))"

section \<open>Facts about the codec\<close>

subsection \<open>Slices and bytes\<close>

lemma decode_len_split:
  "decode_len i = Inr (n, lb, buf) \<Longrightarrow> lb @ buf = i"
  by (auto simp: decode_len_def Let_def split: list.splits if_splits)


lemma from_bytes_snoc: "from_bytes (bs @ [b]) = from_bytes bs * 256 + unat b"
  by (simp add: from_bytes_def)

lemma from_to_bytes_big:
  "0 \<le> n \<Longrightarrow> int (from_bytes (to_bytes_big k n)) = n mod 256 ^ k"
proof (induction k arbitrary: n)
  case 0
  then show ?case by (simp add: from_bytes_def)
next
  case (Suc k)
  have "0 \<le> n div 256" using Suc.prems by simp
  then have ih: "int (from_bytes (to_bytes_big k (n div 256))) = (n div 256) mod 256 ^ k"
    by (rule Suc.IH)
  have u: "uint (word_of_int (n mod 256) :: byte) = n mod 256"
    by (simp add: uint_word_of_int)
  have "n mod (256 * 256 ^ k) = 256 * (n div 256 mod 256 ^ k) + n mod 256"
    by (rule zmod_zmult2_eq) simp
  then show ?case
    by (simp add: from_bytes_snoc ih u)
qed

lemma bit_length_nat_bound: "n < 2 ^ bit_length_nat n"
proof (induction n rule: bit_length_nat.induct)
  case (1 n)
  show ?case
  proof (cases "n = 0")
    case True
    then show ?thesis by (simp add: bit_length_nat.simps)
  next
    case False
    with 1 have "n div 2 < 2 ^ bit_length_nat (n div 2)" by simp
    then show ?thesis using False
      by (subst bit_length_nat.simps) simp
  qed
qed

lemma and_127_int: "(x::int) AND 127 = x mod 128"
proof -
  have m: "mask 7 = (127::int)" by (simp add: mask_eq_exp_minus_1)
  have "x AND mask 7 = x mod 2 ^ 7"
    by (simp only: take_bit_eq_mask [symmetric] take_bit_eq_mod)
  with m show ?thesis by simp
qed

lemma uint_and_127: "uint ((x::byte) AND 0x7F) = uint x mod 128"
  using and_127_int [of "uint x"] by (simp add: uint_and)

lemma unat_and_127: "unat ((x::byte) AND 0x7F) = unat x mod 128"
proof -
  have "int (unat (x AND 0x7F)) = uint (x AND 0x7F)" by simp
  also have "\<dots> = uint x mod 128" by (rule uint_and_127)
  also have "\<dots> = int (unat x mod 128)" by (simp add: zmod_int)
  finally show ?thesis by (simp only: of_nat_eq_iff)
qed

lemma shift_or_add:
  assumes "0 \<le> m" "m < 128"
  shows "push_bit 7 (n::int) OR m = n * 128 + m"
proof -
  have m: "take_bit 7 m = m" using assms by (simp add: take_bit_int_eq_self)
  have "push_bit 7 n + take_bit 7 m = push_bit 7 n OR take_bit 7 m"
    by (rule disjunctive_add) (auto simp: bit_push_bit_iff bit_take_bit_iff)
  then show ?thesis by (simp add: m push_bit_eq_mult)
qed

lemma byte_and_128: "((w::byte) AND 0x80 = 0) = (uint w < 128)"
proof -
  have "(0x80::byte) = 2 ^ 7" by simp
  then have "(w AND 0x80 = 0) = (\<not> bit w 7)"
    by (simp only: and_exp_eq_0_iff_not_bit)
  also have "\<dots> = (\<not> bit (uint w) 7)"
    by (simp add: bit_uint_iff)
  also have "\<dots> = (\<not> odd (uint w div 128))"
    by (simp add: bit_iff_odd_drop_bit drop_bit_eq_div)
  also have "\<dots> = (uint w < 128)"
  proof -
    have "0 \<le> uint w" "uint w < 256" using uint_lt2p [of w] by simp_all
    then have "uint w < 128 \<Longrightarrow> uint w div 128 = 0"
      and "\<not> uint w < 128 \<Longrightarrow> uint w div 128 = 1" by presburger+
    then show ?thesis by (cases "uint w < 128") simp_all
  qed
  finally show ?thesis .
qed

subsection \<open>Lengths: decoding an encoded length\<close>

lemma length_to_bytes_big: "length (to_bytes_big k n) = k"
  by (induction k arbitrary: n) simp_all

lemma or_128_int: "0 \<le> m \<Longrightarrow> m < 128 \<Longrightarrow> (m::int) OR 128 = m + 128"
  using shift_or_add [of m 1] by (simp add: or.commute)

lemma bit_length_bytes_bound:
  assumes "0 \<le> n"
  shows "n < 256 ^ ((bit_length n + 7) div 8)"
proof -
  let ?b = "bit_length_nat (nat n)"
  have "nat n < 2 ^ ?b" by (rule bit_length_nat_bound)
  also have "(2::nat) ^ ?b \<le> 2 ^ (8 * ((?b + 7) div 8))"
    by (rule power_increasing) simp_all
  also have "\<dots> = 256 ^ ((?b + 7) div 8)"
    by (simp add: power_mult)
  finally have "nat n < 256 ^ ((?b + 7) div 8)" .
  then have "int (nat n) < int (256 ^ ((?b + 7) div 8))" by (simp only: of_nat_less_iff)
  then show ?thesis using assms by (simp add: bit_length_def)
qed

lemma bit_length_pos: "0 < n \<Longrightarrow> 0 < bit_length n"
  by (simp add: bit_length_def bit_length_nat.simps [of "nat n"])

lemma decode_encode_len:
  assumes "encode_len (int n) = Inr L"
  shows "decode_len (L @ rest) = Inr (n, L, rest)"
proof (cases "int n < 0x80")
  case True
  then have L: "L = [word_of_int (int n)]"
    using assms by (simp add: encode_len_def bytearray1_def)
  have "unat (word_of_int (int n) :: byte) = n"
    using True by (simp add: unat_of_nat)
  then show ?thesis using True by (simp add: L decode_len_def)
next
  case False
  define k where "k = (bit_length (int n) + 7) div 8"
  have k128: "k < 0x80"
    using assms False by (auto simp: encode_len_def k_def Let_def py_assert_def split: if_splits)
  have kpos: "0 < k"
    using bit_length_pos [of "int n"] False by (simp add: k_def)
  have fits: "int n < 256 ^ k"
    unfolding k_def by (rule bit_length_bytes_bound) simp
  have hd_val: "int k OR 0x80 = int k + 128"
    using k128 by (simp add: or_128_int)
  define h :: byte where "h = word_of_int (int k + 128)"
  have L: "L = h # to_bytes_big k (int n)"
    using assms False k128 fits
    by (simp add: encode_len_def Let_def py_assert_def bytearray1_def to_bytes_def hd_val h_def
        flip: k_def)
  have "uint h = (int k + 128) mod 2 ^ LENGTH(8)"
    unfolding h_def by (simp only: uint_word_of_int)
  then have uh: "uint h = int k + 128"
    using k128 by simp
  have "unat h = nat (uint h)" by simp
  with uh have unat_h: "unat h = k + 128" by simp
  have "unat (h AND 0x7F) = unat h mod 128" by (rule unat_and_127)
  then have low: "unat (h AND 0x7F) = k"
    using k128 by (simp add: unat_h)
  have val: "from_bytes (to_bytes_big k (int n)) = n"
    using from_to_bytes_big [of "int n" k] fits by simp
  show ?thesis
    using kpos
    by (simp add: L decode_len_def unat_h low length_to_bytes_big val)
qed

subsection \<open>Arcs: decoding an encoded base-128 integer\<close>

definition flagged :: "int \<Rightarrow> byte" where
  "flagged n = word_of_int ((n AND 0x7F) OR 0x80)"

lemma encode_int_loop_step:
  "0 < n \<Longrightarrow> encode_int_loop n acc = encode_int_loop (n div 128) (acc @ [flagged n])"
  by (subst encode_int_loop.simps) (simp add: drop_bit_eq_div flagged_def)

lemma encode_int_loop_stop: "\<not> 0 < n \<Longrightarrow> encode_int_loop n acc = acc"
  by (subst encode_int_loop.simps) simp

lemma encode_int_loop_acc: "encode_int_loop n acc = acc @ encode_int_loop n []"
proof (induction "nat n" arbitrary: n acc rule: less_induct)
  case less
  show ?case
  proof (cases "0 < n")
    case True
    then have smaller: "nat (n div 128) < nat n" by simp
    have "encode_int_loop n acc = encode_int_loop (n div 128) (acc @ [flagged n])"
      using True by (rule encode_int_loop_step)
    also have "\<dots> = (acc @ [flagged n]) @ encode_int_loop (n div 128) []"
      using smaller by (rule less)
    also have "\<dots> = acc @ encode_int_loop (n div 128) ([] @ [flagged n])"
      using less [OF smaller, of "[flagged n]"] by simp
    also have "\<dots> = acc @ encode_int_loop n []"
      using True by (simp only: encode_int_loop_step [symmetric])
    finally show ?thesis .
  next
    case False
    then show ?thesis by (simp add: encode_int_loop_stop)
  qed
qed

lemma encode_int_loop_pos:
  "0 < n \<Longrightarrow> encode_int_loop n [] = flagged n # encode_int_loop (n div 128) []"
  using encode_int_loop_step [of n "[]"] encode_int_loop_acc [of "n div 128" "[flagged n]"]
  by simp

lemma uint_flagged: "uint (flagged n) = n mod 128 + 128"
proof -
  have "(n AND 0x7F) OR 0x80 = n mod 128 + 128"
    by (simp add: and_127_int or_128_int)
  then have "uint (flagged n) = (n mod 128 + 128) mod 2 ^ LENGTH(8)"
    unfolding flagged_def by (simp only: uint_word_of_int)
  then show ?thesis by simp
qed

lemma flagged_high: "flagged n AND 0x80 \<noteq> 0"
  by (simp add: byte_and_128 uint_flagged)

lemma flagged_low: "uint (flagged n AND 0x7F) = n mod 128"
  by (simp add: uint_and_127 uint_flagged)

lemma decode_int_loop_flagged:
  "decode_int_loop a (flagged d # xs) = decode_int_loop (a * 128 + d mod 128) xs"
proof -
  have "push_bit 7 a OR (d mod 128) = a * 128 + d mod 128"
    by (rule shift_or_add) simp_all
  then show ?thesis by (simp add: flagged_high flagged_low Let_def)
qed

lemma decode_int_loop_digits:
  "0 \<le> m \<Longrightarrow> \<exists>k. decode_int_loop a (rev (encode_int_loop m []) @ ys)
      = decode_int_loop (a * 128 ^ k + m) ys"
proof (induction "nat m" arbitrary: m ys rule: less_induct)
  case less
  show ?case
  proof (cases "0 < m")
    case True
    then have smaller: "nat (m div 128) < nat m" by simp
    have nonneg: "0 \<le> m div 128" using True by simp
    obtain k where k: "decode_int_loop a (rev (encode_int_loop (m div 128) []) @ flagged m # ys)
        = decode_int_loop (a * 128 ^ k + m div 128) (flagged m # ys)"
      using less(1) [OF smaller nonneg] by blast
    have "decode_int_loop a (rev (encode_int_loop m []) @ ys)
        = decode_int_loop (a * 128 ^ k + m div 128) (flagged m # ys)"
      using True k by (simp add: encode_int_loop_pos)
    also have "\<dots> = decode_int_loop ((a * 128 ^ k + m div 128) * 128 + m mod 128) ys"
      by (rule decode_int_loop_flagged)
    also have "(a * 128 ^ k + m div 128) * 128 + m mod 128 = a * 128 ^ Suc k + m"
      by (simp add: algebra_simps)
    finally show ?thesis by blast
  next
    case False
    with less(2) have "m = 0" by simp
    then have "decode_int_loop a (rev (encode_int_loop m []) @ ys)
        = decode_int_loop (a * 128 ^ 0 + m) ys"
      by (simp add: encode_int_loop_stop)
    then show ?thesis by blast
  qed
qed

lemma encode_int_loop_flags:
  "x \<in> set (encode_int_loop m []) \<Longrightarrow> 128 \<le> uint x"
proof (induction "nat m" arbitrary: m rule: less_induct)
  case less
  show ?case
  proof (cases "0 < m")
    case True
    then have smaller: "nat (m div 128) < nat m" by simp
    from less(2) True have "x = flagged m \<or> x \<in> set (encode_int_loop (m div 128) [])"
      by (simp add: encode_int_loop_pos)
    then show ?thesis
    proof
      assume "x = flagged m"
      then show ?thesis by (simp add: uint_flagged)
    next
      assume "x \<in> set (encode_int_loop (m div 128) [])"
      with smaller show ?thesis by (rule less(1))
    qed
  next
    case False
    with less(2) show ?thesis by (simp add: encode_int_loop_stop)
  qed
qed

lemma decode_encode_int:
  assumes "encode_int n = Inr bs"
  shows "decode_int (bs @ rest) = Inr (n, rest)"
proof (cases "n < 0x80")
  case True
  then have n0: "0 \<le> n" and bs: "bs = [word_of_int n]"
    using assms by (auto simp: encode_int_def bytearray1_def split: if_splits)
  have u: "uint (word_of_int n :: byte) = n"
    using True n0 by (simp add: uint_word_of_int)
  have "unat (word_of_int n :: byte) = nat (uint (word_of_int n :: byte))" by simp
  then have "unat (word_of_int n :: byte) < 0x80" using True n0 u by simp
  then show ?thesis by (simp add: bs decode_int_def u)
next
  case False
  then have pos: "0 < n" and hi: "0 < n div 128" by simp_all
  define low :: byte where "low = flagged n AND 0x7F"
  define top where "top = rev (encode_int_loop (n div 128) [])"
  have loop: "encode_int_loop n [] = flagged n # encode_int_loop (n div 128) []"
    using pos by (rule encode_int_loop_pos)
  have bs: "bs = top @ [low]"
    using assms False by (simp add: encode_int_def loop low_def top_def)
  have ulow: "uint low = n mod 128"
    unfolding low_def by (rule flagged_low)
  have low_last: "low AND 0x80 = 0"
    by (simp add: byte_and_128 ulow)
  have low_val: "uint (low AND 0x7F) = n mod 128"
    by (simp add: uint_and_127 ulow)
  obtain t ts where top: "top = t # ts" and t: "128 \<le> uint t"
  proof -
    have "top \<noteq> []" using hi by (simp add: top_def encode_int_loop_pos)
    then obtain t ts where tts: "top = t # ts" by (cases top) auto
    then have "t \<in> set (encode_int_loop (n div 128) [])"
      unfolding top_def by (metis list.set_intros(1) set_rev)
    then have "128 \<le> uint t" by (rule encode_int_loop_flags)
    with tts show ?thesis by (rule that)
  qed
  from t have "128 \<le> int (unat t)" by simp
  then have not_short: "\<not> unat t < 0x80" by linarith
  obtain k where k: "decode_int_loop 0 (top @ low # rest)
      = decode_int_loop (0 * 128 ^ k + n div 128) (low # rest)"
    using decode_int_loop_digits [of "n div 128" 0 "low # rest"] hi
    unfolding top_def by auto
  have "push_bit 7 (n div 128) OR (n mod 128) = n div 128 * 128 + n mod 128"
    by (rule shift_or_add) simp_all
  then have "decode_int_loop (n div 128) (low # rest) = Inr (n, rest)"
    by (simp add: low_last low_val Let_def)
  with k have "decode_int_loop 0 (top @ low # rest) = Inr (n, rest)" by simp
  then show ?thesis
    using not_short by (simp add: bs decode_int_def top)
qed

subsection \<open>ObjectID: decoding an encoded identifier\<close>

lemma decode_arcs_Nil: "decode_arcs acc [] = Inr acc"
  by (simp add: decode_arcs.simps)

lemma decode_arcs_encoded:
  assumes "encode_int n = Inr bs"
  shows "decode_arcs acc (bs @ rest) = decode_arcs (acc @ [n]) rest"
proof -
  have dec: "decode_int (bs @ rest) = Inr (n, rest)"
    using assms by (rule decode_encode_int)
  then have "length rest < length (bs @ rest)" by (rule decode_int_shorter)
  then have ne: "bs @ rest \<noteq> []" by auto
  show ?thesis
    by (subst decode_arcs.simps) (simp only: ne dec if_False sum.case prod.case)
qed

lemma extend_arcs_decode:
  assumes "extend_arcs buf arcs = Inr buf'"
  shows "\<exists>e. buf' = buf @ e \<and> (\<forall>acc. decode_arcs acc e = Inr (acc @ arcs))"
  using assms
proof (induction arcs arbitrary: buf)
  case Nil
  then show ?case by (simp add: decode_arcs_Nil)
next
  case (Cons n ns)
  from Cons.prems obtain bs where bs: "encode_int n = Inr bs"
    and rest: "extend_arcs (buf @ bs) ns = Inr buf'"
    by (auto split: sum.splits)
  from Cons.IH [OF rest] obtain e where e: "buf' = (buf @ bs) @ e"
    and dec: "\<forall>acc. decode_arcs acc e = Inr (acc @ ns)" by blast
  have "decode_arcs acc (bs @ e) = Inr (acc @ n # ns)" for acc
    using decode_arcs_encoded [OF bs, of acc e] dec by simp
  with e show ?case by auto
qed

lemma first_octet_arcs:
  assumes "0 \<le> a0" "a0 \<le> 2" "0 \<le> a1" "a0 < 2 \<longrightarrow> a1 < 40" "40 * a0 + a1 < 256"
  shows "int (min (nat (40 * a0 + a1) div 40) 2) = a0"
    and "40 * a0 + a1 - int (min (nat (40 * a0 + a1) div 40) 2) * 40 = a1"
proof -
  have "a0 = 0 \<or> a0 = 1 \<or> a0 = 2" using assms by auto
  then show "int (min (nat (40 * a0 + a1) div 40) 2) = a0"
    using assms by auto
  then show "40 * a0 + a1 - int (min (nat (40 * a0 + a1) div 40) 2) * 40 = a1" by simp
qed

lemma ObjectID_from_as_der:
  assumes enc: "ObjectID_as_der x = Inr der"
    and arcs: "oid x = a0 # a1 # arcs"
    and valid: "0 \<le> a0" "a0 \<le> 2" "0 \<le> a1" "a0 < 2 \<longrightarrow> a1 < 40"
  shows "ObjectID_from_der (der @ rest) = Inr (\<lparr>name = None, oid = oid x\<rparr>, rest)"
proof -
  define c :: byte where "c = word_of_int (40 * a0 + a1)"
  from enc arcs obtain buf len_bytes where
    range: "0 \<le> 40 * a0 + a1" "40 * a0 + a1 < 256"
    and buf: "extend_arcs [c] arcs = Inr buf"
    and len: "encode_len (int (length buf)) = Inr len_bytes"
    and der: "der = [0x06] @ len_bytes @ buf"
    by (auto simp: ObjectID_as_der_def bytearray1_def and_then_def c_def
        split: if_splits sum.splits)
  from extend_arcs_decode [OF buf] obtain e where e: "buf = [c] @ e"
    and dec: "\<And>acc. decode_arcs acc e = Inr (acc @ arcs)" by blast
  have dl: "decode_len (len_bytes @ buf @ rest) = Inr (length buf, len_bytes, buf @ rest)"
    using len by (rule decode_encode_len)
  have "uint c = (40 * a0 + a1) mod 2 ^ LENGTH(8)"
    unfolding c_def by (simp only: uint_word_of_int)
  then have "uint c = 40 * a0 + a1" using range by simp
  moreover have "unat c = nat (uint c)" by simp
  ultimately have uc: "unat c = nat (40 * a0 + a1)" by simp
  have ic: "int (unat c) = 40 * a0 + a1" using uc range by simp
  note fo = first_octet_arcs [OF valid range(2)]
  show ?thesis
    using dl dec range
    by (simp add: ObjectID_from_der_def der py_assert_def e Let_def uc fo arcs
        del: of_nat_min of_nat_div)
qed

section \<open>Claims about the length codec and the TLV walker\<close>

text \<open>\<open>int.from_bytes(bs, "big")\<close> is the big-endian value of the octets.\<close>

lemma from_bytes_big_endian:
  "from_bytes bs = (\<Sum>j<length bs. unat (bs ! j) * 256 ^ (length bs - 1 - j))"
proof (induction bs rule: rev_induct)
  case Nil
  show ?case by (simp add: from_bytes_def)
next
  case (snoc b bs)
  have "(\<Sum>j<length bs. unat ((bs @ [b]) ! j) * 256 ^ (length (bs @ [b]) - 1 - j))
      = (\<Sum>j<length bs. unat (bs ! j) * 256 ^ (length bs - 1 - j) * 256)"
  proof (rule sum.cong)
    fix j assume "j \<in> {..<length bs}"
    then have j: "j < length bs" by simp
    then have "length bs - j = Suc (length bs - 1 - j)" by simp
    then show "unat ((bs @ [b]) ! j) * 256 ^ (length (bs @ [b]) - 1 - j)
        = unat (bs ! j) * 256 ^ (length bs - 1 - j) * 256"
      using j by (simp add: nth_append)
  qed simp
  also have "\<dots> = from_bytes bs * 256"
    by (simp add: snoc.IH sum_distrib_right)
  finally show ?case
    by (simp add: from_bytes_snoc)
qed

text \<open>
  Claim C7 (amended). \<open>_decode_len\<close> has no UnsupportedEncoding failure. For every
  first octet strictly above 0x80 the short form is not used: the low 7 bits give the
  count \<open>k\<close> and the (at most \<open>k\<close>, as many as are present) following octets are the
  value, big-endian. For every first octet below 0x80 the value is the octet itself.
\<close>

theorem decode_len_forms:
  assumes "k = unat l mod 128" and "bs = take k rest"
  shows "(0x80 < unat l \<longrightarrow>
            decode_len (l # rest) =
              Inr (\<Sum>j<length bs. unat (bs ! j) * 256 ^ (length bs - 1 - j),
                   l # bs, drop k rest)) \<and>
         (unat l < 0x80 \<longrightarrow> decode_len (l # rest) = Inr (unat l, [l], rest))"
proof (intro conjI impI)
  assume long: "0x80 < unat l"
  have "unat (l AND 0x7F) = k"
    using assms(1) by (simp only: unat_and_127)
  then have "decode_len (l # rest) = Inr (from_bytes bs, l # bs, drop k rest)"
    using long assms(2) by (simp add: decode_len_def)
  then show "decode_len (l # rest) =
      Inr (\<Sum>j<length bs. unat (bs ! j) * 256 ^ (length bs - 1 - j), l # bs, drop k rest)"
    by (simp only: from_bytes_big_endian)
next
  assume "unat l < 0x80"
  then show "decode_len (l # rest) = Inr (unat l, [l], rest)"
    by (simp add: decode_len_def)
qed

theorem decode_len_forms_witness:
  "(0x80::nat) < unat (0x82 :: byte) \<and>
   decode_len [0x82, 0x01, 0x00, 0xAA] = Inr (256, [0x82, 0x01, 0x00], [0xAA]) \<and>
   unat (0x05 :: byte) < (0x80::nat) \<and>
   decode_len [0x05, 0xAA] = Inr (5, [0x05], [0xAA])"
proof -
  have k: "(2::nat) = unat (0x82 :: byte) mod 128" by simp
  have bs: "[0x01, 0x00] = take 2 [0x01, 0x00, 0xAA :: byte]" by simp
  have long: "(0x80::nat) < unat (0x82 :: byte)" by simp
  have "(\<Sum>j<length [0x01, 0x00 :: byte].
          unat ([0x01, 0x00 :: byte] ! j) * 256 ^ (length [0x01, 0x00 :: byte] - 1 - j)) = 256"
    by (simp add: lessThan_Suc numeral_2_eq_2)
  with decode_len_forms [OF k bs] long
  have a: "decode_len [0x82, 0x01, 0x00, 0xAA] = Inr (256, [0x82, 0x01, 0x00], [0xAA])"
    by simp
  have k': "(5::nat) = unat (0x05 :: byte) mod 128" by simp
  have bs': "[0xAA] = take 5 [0xAA :: byte]" by simp
  have short: "unat (0x05 :: byte) < (0x80::nat)" by simp
  with decode_len_forms [OF k' bs']
  have b: "decode_len [0x05, 0xAA] = Inr (5, [0x05], [0xAA])" by simp
  from long a short b show ?thesis by blast
qed

text \<open>
  An input whose first octet is exactly 0x80 is not rejected, and the octet is read as
  the short form: the length 128.
\<close>

theorem decode_len_indefinite_counterexample:
  "decode_len [0x80, 0x01] = Inr (128, [0x80], [0x01])"
  by (simp add: decode_len_def)

text \<open>
  Claim C6 (amended). \<open>_dumb_decode\<close> has no check of the declared length against
  the octets present. On fewer than two octets it raises IndexError; on any longer
  input it returns an element whose span and remainder are the input split in two,
  and when the declared length exceeds the value octets present, the span is the
  whole input (a value shorter than declared) and the remainder is empty.
\<close>

theorem dumb_decode_short_value:
  "(length i < 2 \<longrightarrow> dumb_decode i = Inl IndexError) \<and>
   (2 \<le> length i \<longrightarrow>
      (\<exists>span rest. dumb_decode i = Inr ((hd i, span), rest) \<and> span @ rest = i \<and>
         (\<forall>n lb buf. decode_len (drop 1 i) = Inr (n, lb, buf) \<and> length buf < n
            \<longrightarrow> span = i \<and> rest = [])))"
proof (intro conjI impI)
  assume "length i < 2"
  then consider "i = []" | t where "i = [t]"
    by (cases i; cases "tl i") auto
  then show "dumb_decode i = Inl IndexError"
    by cases (simp_all add: dumb_decode_def decode_len_def)
next
  assume "2 \<le> length i"
  then obtain t l r where i: "i = t # l # r"
    by (cases i; cases "tl i") auto
  obtain n lb buf where dl: "decode_len (l # r) = Inr (n, lb, buf)"
    by (cases "0x80 < unat l") (simp_all add: decode_len_def Let_def)
  then have split: "lb @ buf = l # r" by (rule decode_len_split)
  have dd: "dumb_decode i = Inr ((t, t # lb @ take n buf), drop n buf)"
    by (simp add: dumb_decode_def i dl)
  have "(t # lb @ take n buf) @ drop n buf = i"
    using split by (simp add: i)
  moreover have "length buf < n \<Longrightarrow> t # lb @ take n buf = i \<and> drop n buf = []"
    using split by (simp add: i)
  ultimately show "\<exists>span rest. dumb_decode i = Inr ((hd i, span), rest) \<and> span @ rest = i \<and>
         (\<forall>n lb buf. decode_len (drop 1 i) = Inr (n, lb, buf) \<and> length buf < n
            \<longrightarrow> span = i \<and> rest = [])"
    using dd dl by (auto simp: i)
qed

theorem dumb_decode_short_value_witness:
  "(2::nat) \<le> length [0x30 :: byte, 0x03, 0x02, 0x01] \<and>
   dumb_decode [0x30, 0x03, 0x02, 0x01] = Inr ((0x30, [0x30, 0x03, 0x02, 0x01]), []) \<and>
   length ([] :: bytes) < 2 \<and> dumb_decode [] = Inl IndexError"
  using dumb_decode_short_value [of "[0x30, 0x03, 0x02, 0x01]"] dumb_decode_short_value [of "[]"]
  by (auto simp: decode_len_def)

text \<open>
  An OCTET STRING header declaring five value octets with one present is returned
  as an element.
\<close>

theorem dumb_decode_truncated_counterexample:
  "dumb_decode [0x04, 0x05, 0x01] = Inr ((0x04, [0x04, 0x05, 0x01]), [])"
  by (simp add: dumb_decode_def decode_len_def)

section \<open>Claims about ObjectID\<close>

text \<open>
  Claim C5. Equality compares the arc lists only. \<open>__hash__\<close> calls \<open>hash\<close> on the
  arc list, which raises TypeError: an ObjectID has no hash value.
\<close>

theorem ObjectID_hash_raises:
  "ObjectID_eq \<lparr>name = Some ''rsaEncryption'', oid = [1, 2, 840, 113549, 1, 1, 1]\<rparr>
               \<lparr>name = None, oid = [1, 2, 840, 113549, 1, 1, 1]\<rparr> \<and>
   ObjectID_hash \<lparr>name = Some ''rsaEncryption'', oid = [1, 2, 840, 113549, 1, 1, 1]\<rparr>
     = Inl TypeError \<and>
   ObjectID_hash \<lparr>name = None, oid = [1, 2, 840, 113549, 1, 1, 1]\<rparr> = Inl TypeError"
  by (simp add: ObjectID_eq_def ObjectID_hash_def hash_list_def)

text \<open>
  Claim C4 (amended). The first two arcs share one content octet, \<open>40 * a0 + a1\<close>,
  on both sides of the codec. For every arc sequence with at least two arcs, a first
  arc between 0 and 2 and a second arc that is not negative and is below 40 when the
  first arc is below 2, whose encoding succeeds (so \<open>40 * a0 + a1\<close> is below 256 and
  no later arc is negative), decoding the encoding gives back the arcs, with nothing
  left over.
\<close>

theorem ObjectID_roundtrip:
  assumes "ObjectID_as_der x = Inr der"
    and "oid x = a0 # a1 # arcs"
    and "0 \<le> a0" and "a0 \<le> 2" and "0 \<le> a1" and "a0 < 2 \<longrightarrow> a1 < 40"
  shows "\<exists>y. ObjectID_from_der der = Inr (y, []) \<and> oid y = oid x"
  using ObjectID_from_as_der [OF assms, of "[]"] by simp

text \<open>The encodings of 1.2.840.113549.1.1.11 and of 2.100.3 (first arc clamped to 2).\<close>

lemma as_der_sha256:
  "ObjectID_as_der \<lparr>name = Some ''sha256WithRSAEncryption'', oid = [1, 2, 840, 113549, 1, 1, 11]\<rparr>
     = Inr [0x06, 0x09, 0x2A, 0x86, 0x48, 0x86, 0xF7, 0x0D, 0x01, 0x01, 0x0B]"
  by (simp add: ObjectID_as_der_def bytearray1_def encode_int_def encode_int_loop.simps
      encode_len_def drop_bit_eq_div)

lemma as_der_clamp:
  "ObjectID_as_der \<lparr>name = None, oid = [2, 100, 3]\<rparr> = Inr [0x06, 0x02, 0xB4, 0x03]"
  by (simp add: ObjectID_as_der_def bytearray1_def encode_int_def encode_int_loop.simps
      encode_len_def drop_bit_eq_div)

theorem ObjectID_roundtrip_witness:
  "ObjectID_as_der \<lparr>name = Some ''sha256WithRSAEncryption'', oid = [1, 2, 840, 113549, 1, 1, 11]\<rparr>
     = Inr [0x06, 0x09, 0x2A, 0x86, 0x48, 0x86, 0xF7, 0x0D, 0x01, 0x01, 0x0B] \<and>
   (\<exists>y. ObjectID_from_der [0x06, 0x09, 0x2A, 0x86, 0x48, 0x86, 0xF7, 0x0D, 0x01, 0x01, 0x0B]
          = Inr (y, []) \<and> oid y = [1, 2, 840, 113549, 1, 1, 11]) \<and>
   ObjectID_as_der \<lparr>name = None, oid = [2, 100, 3]\<rparr> = Inr [0x06, 0x02, 0xB4, 0x03] \<and>
   (\<exists>y. ObjectID_from_der [0x06, 0x02, 0xB4, 0x03] = Inr (y, []) \<and> oid y = [2, 100, 3])"
  using ObjectID_roundtrip [OF as_der_sha256, of 1 2 "[840, 113549, 1, 1, 11]"]
    ObjectID_roundtrip [OF as_der_clamp, of 2 100 "[3]"]
    as_der_sha256 as_der_clamp
  by simp

text \<open>
  The arc sequence 2.999.3 has no encoding: \<open>40 * 2 + 999\<close> does not fit the single
  octet \<open>as_der\<close> appends, and the append raises ValueError.
\<close>

theorem ObjectID_as_der_2_999_counterexample:
  "ObjectID_as_der \<lparr>name = None, oid = [2, 999, 3]\<rparr> = Inl ValueError"
  by (simp add: ObjectID_as_der_def bytearray1_def)

section \<open>Claims about TBSCertificate and Certificate\<close>








text \<open>
  A minimal TBSCertificate (serial number 1, five empty SEQUENCEs), and the same with
  a NULL element (05 00) after subjectPublicKeyInfo.
\<close>

definition tbs_minimal :: bytes where
  "tbs_minimal = [0x30, 0x0D, 0x02, 0x01, 0x01, 0x30, 0x00, 0x30, 0x00, 0x30, 0x00,
                  0x30, 0x00, 0x30, 0x00]"


definition tbs_minimal_value :: TBSCertificate where
  "tbs_minimal_value =
     \<lparr>serial_number = [0x02, 0x01, 0x01], signature = [0x30, 0x00], issuer = [0x30, 0x00],
      validity = [0x30, 0x00], subject = [0x30, 0x00],
      subject_public_key_info = [0x30, 0x00], version = None, issuer_unique_id = None,
      subject_unique_id = None, extensions = None\<rparr>"

lemmas decoder_defs =
  TBSCertificate_from_der_def read_expect_def optional_field_def dumb_decode_def
  decode_len_def py_assert_def





text \<open>
  An encoding is complete when its first element is entirely present: the length
  octets its first length octet announces, and the value octets its length declares.
\<close>

definition tlv_complete :: "bytes \<Rightarrow> bool" where
  "tlv_complete b =
     (case b of
        [] \<Rightarrow> False
      | _ # i \<Rightarrow>
          (case i of
             [] \<Rightarrow> False
           | l # r \<Rightarrow>
               (if unat l > 0x80 then unat (l AND 0x7F) \<le> length r else True) \<and>
               (case decode_len i of Inl _ \<Rightarrow> False | Inr (n, _, buf) \<Rightarrow> n \<le> length buf)))"

lemma decode_len_append:
  assumes "tlv_complete (t # i)" and "decode_len i = Inr (n, lb, buf)"
  shows "decode_len (i @ extra) = Inr (n, lb, buf @ extra) \<and> n \<le> length buf"
  using assms
  by (cases i) (auto simp: tlv_complete_def decode_len_def Let_def split: if_splits)

lemma Certificate_from_der_append:
  assumes "Certificate_from_der b = Inr (cert, rem)" and "tlv_complete b"
  shows "Certificate_from_der (b @ extra) = Inr (cert, rem @ extra)"
proof (cases b)
  case Nil
  with assms show ?thesis by (simp add: Certificate_from_der_def)
next
  case (Cons b0 bs)
  from assms(1) obtain n lb buf where dl: "decode_len bs = Inr (n, lb, buf)"
    by (auto simp: Certificate_from_der_def Cons elim!: and_then_InrE)
  from decode_len_append [OF assms(2) [unfolded Cons] dl, of extra]
  have dl': "decode_len (bs @ extra) = Inr (n, lb, buf @ extra)" and n: "n \<le> length buf"
    by simp_all
  from assms(1) show ?thesis
    using n by (auto simp: Certificate_from_der_def Cons dl dl' Let_def elim!: and_then_InrE)
qed

text \<open>A minimal Certificate around the minimal TBSCertificate.\<close>

definition cert_minimal :: bytes where
  "cert_minimal = [0x30, 0x14] @ tbs_minimal @ [0x30, 0x00, 0x03, 0x01, 0x00]"

definition cert_minimal_value :: Certificate where
  "cert_minimal_value =
     \<lparr>tbs_certificate = tbs_minimal_value, signature_algorithm = [0x30, 0x00],
      signature_value = [0x03, 0x01, 0x00]\<rparr>"

lemma from_der_cert_minimal:
  "Certificate_from_der cert_minimal = Inr (cert_minimal_value, [])"
  by (simp add: Certificate_from_der_def decoder_defs cert_minimal_def tbs_minimal_def
      cert_minimal_value_def tbs_minimal_value_def)

lemma cert_minimal_complete: "tlv_complete cert_minimal"
  by (simp add: tlv_complete_def cert_minimal_def tbs_minimal_def decode_len_def)




section \<open>Claims about the trusted-certificate functions\<close>

text \<open>
  The identifiers the codec can carry: at least two arcs, the first 0, 1 or 2, the
  second not negative and below 40 unless the first is 2. \<open>unnamed x\<close> is what
  \<open>ObjectID.from_der\<close> builds for the arcs of \<open>x\<close>: the name is None.
\<close>

definition first_arcs_valid :: "ObjectID \<Rightarrow> bool" where
  "first_arcs_valid x =
     (case oid x of
        a0 # a1 # _ \<Rightarrow> 0 \<le> a0 \<and> a0 \<le> 2 \<and> 0 \<le> a1 \<and> (a1 < 40 \<or> a0 = 2)
      | _ \<Rightarrow> False)"

definition unnamed :: "ObjectID \<Rightarrow> ObjectID" where
  "unnamed x = \<lparr>name = None, oid = oid x\<rparr>"

lemma ObjectID_from_as_der_unnamed:
  assumes "ObjectID_as_der x = Inr der" and "first_arcs_valid x"
  shows "ObjectID_from_der (der @ rest) = Inr (unnamed x, rest)"
proof -
  from assms(2) obtain a0 a1 arcs where arcs: "oid x = a0 # a1 # arcs"
    and v: "0 \<le> a0" "a0 \<le> 2" "0 \<le> a1" "a0 < 2 \<longrightarrow> a1 < 40"
    by (auto simp: first_arcs_valid_def split: list.splits)
  show ?thesis
    unfolding unnamed_def by (rule ObjectID_from_as_der [OF assms(1) arcs v])
qed

lemma decode_oids_Nil: "decode_oids acc [] = Inr acc"
  by (simp add: decode_oids.simps)

lemma decode_oids_encoded:
  assumes "ObjectID_as_der x = Inr der" and "first_arcs_valid x"
  shows "decode_oids acc (der @ rest) = decode_oids (acc @ [unnamed x]) rest"
proof -
  have dec: "ObjectID_from_der (der @ rest) = Inr (unnamed x, rest)"
    using assms by (rule ObjectID_from_as_der_unnamed)
  then have "length rest < length (der @ rest)" by (rule ObjectID_from_der_shorter)
  then have ne: "der @ rest \<noteq> []" by auto
  show ?thesis
    by (subst decode_oids.simps) (simp only: ne dec if_False sum.case prod.case)
qed

lemma extend_oids_decode:
  assumes "extend_oids buf xs = Inr buf'" and "\<forall>x\<in>set xs. first_arcs_valid x"
  shows "\<exists>e. buf' = buf @ e \<and> (\<forall>acc. decode_oids acc e = Inr (acc @ map unnamed xs))"
  using assms
proof (induction xs arbitrary: buf)
  case Nil
  then show ?case by (simp add: decode_oids_Nil)
next
  case (Cons x xs)
  from Cons.prems(1) obtain der where der: "ObjectID_as_der x = Inr der"
    and rest: "extend_oids (buf @ der) xs = Inr buf'"
    by (auto split: sum.splits)
  from Cons.prems(2) have vx: "first_arcs_valid x" and vxs: "\<forall>y\<in>set xs. first_arcs_valid y"
    by simp_all
  from Cons.IH [OF rest vxs] obtain e where e: "buf' = (buf @ der) @ e"
    and dec: "\<forall>acc. decode_oids acc e = Inr (acc @ map unnamed xs)" by blast
  have "decode_oids acc (der @ e) = Inr (acc @ map unnamed (x # xs))" for acc
    using decode_oids_encoded [OF der vx, of acc e] dec by simp
  with e show ?case by auto
qed

lemma encode_oids_decode:
  assumes "encode_oids xs tag = Inr bs" and "\<forall>x\<in>set xs. first_arcs_valid x"
  shows "\<exists>lb e. bs = [tag] @ lb @ e \<and>
           (\<forall>rest. decode_len (lb @ e @ rest) = Inr (length e, lb, e @ rest)) \<and>
           decode_oids [] e = Inr (map unnamed xs)"
proof -
  from assms(1) obtain buf lb where buf: "extend_oids [] xs = Inr buf"
    and lb: "encode_len (int (length buf)) = Inr lb" and bs: "bs = [tag] @ lb @ buf"
    by (auto simp: encode_oids_def elim!: and_then_InrE)
  from extend_oids_decode [OF buf assms(2)]
  have dec: "decode_oids [] buf = Inr (map unnamed xs)" by auto
  have "decode_len (lb @ buf @ rest) = Inr (length buf, lb, buf @ rest)" for rest
    using lb by (rule decode_encode_len)
  with bs dec show ?thesis by blast
qed

lemma list_all2_unnamed: "list_all2 ObjectID_eq (map unnamed xs) xs"
  by (induction xs) (simp_all add: ObjectID_eq_def unnamed_def)

lemma OpenSSLCertAux_from_as_der:
  assumes enc: "OpenSSLCertAux_as_der aux = Inr der"
    and valid: "\<forall>x\<in>set (trust aux) \<union> set (reject aux). first_arcs_valid x"
  shows "OpenSSLCertAux_from_der (der @ rest) =
           Inr (\<lparr>trust = map unnamed (trust aux), reject = map unnamed (reject aux)\<rparr>, rest)"
proof -
  from enc obtain tb buf lb where tb: "encode_oids (trust aux) 0x30 = Inr tb"
    and buf: "(if reject aux \<noteq> [] then
          and_then (encode_oids (reject aux) 0xA0) (\<lambda>r. Inr (tb @ r))
        else Inr tb) = Inr buf"
    and lb: "encode_len (int (length buf)) = Inr lb"
    and der: "der = [0x30] @ lb @ buf"
    by (auto simp: OpenSSLCertAux_as_der_def elim!: and_then_InrE)
  from valid have vt: "\<forall>x\<in>set (trust aux). first_arcs_valid x"
    and vr: "\<forall>x\<in>set (reject aux). first_arcs_valid x" by auto
  from encode_oids_decode [OF tb vt] obtain tl te where
    tb_eq: "tb = [0x30] @ tl @ te"
    and tlen: "\<And>rest. decode_len (tl @ te @ rest) = Inr (length te, tl, te @ rest)"
    and tdec: "decode_oids [] te = Inr (map unnamed (trust aux))" by blast
  have outer: "decode_len (lb @ buf @ rest) = Inr (length buf, lb, buf @ rest)"
    using lb by (rule decode_encode_len)
  show ?thesis
  proof (cases "reject aux = []")
    case True
    with buf have b: "buf = tb" by simp
    show ?thesis
      using outer tlen [of "[]"] tdec True
      by (simp add: OpenSSLCertAux_from_der_def der b tb_eq py_assert_def Let_def)
  next
    case False
    with buf obtain rb where rb: "encode_oids (reject aux) 0xA0 = Inr rb" and b: "buf = tb @ rb"
      by (auto elim!: and_then_InrE)
    from encode_oids_decode [OF rb vr] obtain rl re where
      rb_eq: "rb = [0xA0] @ rl @ re"
      and rlen: "\<And>rest. decode_len (rl @ re @ rest) = Inr (length re, rl, re @ rest)"
      and rdec: "decode_oids [] re = Inr (map unnamed (reject aux))" by blast
    show ?thesis
      using outer tlen [of "rb"] rlen [of "[]"] tdec rdec
      by (simp add: OpenSSLCertAux_from_der_def der b tb_eq rb_eq py_assert_def Let_def)
  qed
qed

lemma parse_to_trusted_certificate:
  assumes cert: "Certificate_from_der cert_der = Inr (cert, [])"
    and complete: "tlv_complete cert_der"
    and valid: "\<forall>x\<in>set (trust aux) \<union> set (reject aux). first_arcs_valid x"
    and pb: "to_trusted_certificate cert_der aux = Inr pb"
  shows "parse_trusted_certificate pb =
           Inr (cert_der, \<lparr>trust = map unnamed (trust aux), reject = map unnamed (reject aux)\<rparr>, [])"
proof -
  from pb obtain aux_der where aux_der: "OpenSSLCertAux_as_der aux = Inr aux_der"
    and pb_eq: "pb = \<lparr>block_name = ''TRUSTED CERTIFICATE'', content = cert_der @ aux_der\<rparr>"
    by (auto simp: to_trusted_certificate_def elim!: and_then_InrE)
  have c: "Certificate_from_der (cert_der @ aux_der) = Inr (cert, aux_der)"
    using Certificate_from_der_append [OF cert complete, of aux_der] by simp
  have a: "OpenSSLCertAux_from_der aux_der =
      Inr (\<lparr>trust = map unnamed (trust aux), reject = map unnamed (reject aux)\<rparr>, [])"
    using OpenSSLCertAux_from_as_der [OF aux_der valid, of "[]"] by simp
  show ?thesis
    by (simp add: parse_trusted_certificate_def pb_eq py_assert_def c a)
qed

text \<open>
  Claim C1 (amended). For every complete certificate encoding \<open>cert_der\<close> that
  \<open>Certificate.from_der\<close> accepts with nothing left over, and every OpenSSLCertAux
  whose trust and reject identifiers the codec can carry and for which
  \<open>to_trusted_certificate\<close> succeeds, \<open>parse_trusted_certificate\<close> of the block
  returns the certificate bytes unchanged, an aux equal to the original (arcs
  compared, names not), and an empty remainder.
\<close>

theorem trusted_certificate_roundtrip:
  assumes "Certificate_from_der cert_der = Inr (cert, [])"
    and "tlv_complete cert_der"
    and "\<forall>x\<in>set (trust aux) \<union> set (reject aux). first_arcs_valid x"
    and "to_trusted_certificate cert_der aux = Inr pb"
  shows "\<exists>aux'. parse_trusted_certificate pb = Inr (cert_der, aux', []) \<and>
           OpenSSLCertAux_eq aux' aux"
  using parse_to_trusted_certificate [OF assms]
  by (simp add: OpenSSLCertAux_eq_def list_all2_unnamed)

text \<open>The minimal certificate with one trust purpose, serverAuth (1.3.6.1.5.5.7.3.1).\<close>

definition aux_server_auth :: OpenSSLCertAux where
  "aux_server_auth =
     \<lparr>trust = [\<lparr>name = Some ''serverAuth'', oid = [1, 3, 6, 1, 5, 5, 7, 3, 1]\<rparr>], reject = []\<rparr>"

definition trusted_minimal :: PEMBlock where
  "trusted_minimal =
     \<lparr>block_name = ''TRUSTED CERTIFICATE'',
      content = cert_minimal @
        [0x30, 0x0C, 0x30, 0x0A, 0x06, 0x08, 0x2B, 0x06, 0x01, 0x05, 0x05, 0x07, 0x03, 0x01]\<rparr>"

lemma to_trusted_minimal:
  "to_trusted_certificate cert_minimal aux_server_auth = Inr trusted_minimal"
  by (simp add: to_trusted_certificate_def OpenSSLCertAux_as_der_def encode_oids_def
      ObjectID_as_der_def bytearray1_def encode_int_def encode_len_def aux_server_auth_def
      trusted_minimal_def)

lemma aux_server_auth_valid:
  "\<forall>x\<in>set (trust aux_server_auth) \<union> set (reject aux_server_auth). first_arcs_valid x"
  by (simp add: aux_server_auth_def first_arcs_valid_def)

theorem trusted_certificate_roundtrip_witness:
  "Certificate_from_der cert_minimal = Inr (cert_minimal_value, []) \<and>
   tlv_complete cert_minimal \<and>
   to_trusted_certificate cert_minimal aux_server_auth = Inr trusted_minimal \<and>
   (\<exists>aux'. parse_trusted_certificate trusted_minimal = Inr (cert_minimal, aux', []) \<and>
       OpenSSLCertAux_eq aux' aux_server_auth)"
  using trusted_certificate_roundtrip [OF from_der_cert_minimal cert_minimal_complete
      aux_server_auth_valid to_trusted_minimal]
    from_der_cert_minimal cert_minimal_complete to_trusted_minimal
  by simp

text \<open>
  With the single trust identifier 2.999.3, \<open>to_trusted_certificate\<close> raises
  ValueError, so there is nothing to parse.
\<close>

theorem trusted_certificate_2_999_counterexample:
  "to_trusted_certificate cert_minimal
     \<lparr>trust = [\<lparr>name = None, oid = [2, 999, 3]\<rparr>], reject = []\<rparr> = Inl ValueError"
  by (simp add: to_trusted_certificate_def OpenSSLCertAux_as_der_def encode_oids_def
      ObjectID_as_der_def bytearray1_def)

section \<open>Claims about the extension encoders\<close>

text \<open>
  An ExtendedKeyUsages value with thirteen copies of serverAuth: its encoding is 133
  octets long, so the OCTET STRING that wraps it needs the long length form.
\<close>

definition server_auth :: ObjectID where
  "server_auth = \<lparr>name = Some ''serverAuth'', oid = [1, 3, 6, 1, 5, 5, 7, 3, 1]\<rparr>"

definition eku_13 :: ExtendedKeyUsages where
  "eku_13 = \<lparr>oids = replicate 13 server_auth\<rparr>"

definition eku_13_der :: bytes where
  "eku_13_der = [0x30, 0x81, 0x82] @
     concat (replicate 13 [0x06, 0x08, 0x2B, 0x06, 0x01, 0x05, 0x05, 0x07, 0x03, 0x01])"

lemma server_auth_der:
  "ObjectID_as_der server_auth = Inr [0x06, 0x08, 0x2B, 0x06, 0x01, 0x05, 0x05, 0x07, 0x03, 0x01]"
  by (simp add: ObjectID_as_der_def bytearray1_def encode_int_def encode_len_def server_auth_def)

lemma extend_oids_replicate:
  "ObjectID_as_der x = Inr d \<Longrightarrow>
   extend_oids buf (replicate n x) = Inr (buf @ concat (replicate n d))"
  by (induction n arbitrary: buf) simp_all

lemma length_concat_replicate: "length (concat (replicate n d)) = n * length d"
  by (induction n) simp_all

lemma encode_len_130: "encode_len 130 = Inr [0x81, 0x82]"
  by code_simp

lemma encode_len_133: "encode_len 133 = Inr [0x81, 0x85]"
  by code_simp

lemma encode_int_133: "encode_int 133 = Inr [0x81, 0x05]"
  by code_simp

lemma encode_len_144: "encode_len 144 = Inr [0x81, 0x90]"
  by code_simp

lemma eku_13_as_der: "ExtendedKeyUsages_as_der eku_13 = Inr eku_13_der"
  by (simp add: ExtendedKeyUsages_as_der_def eku_13_def extend_oids_replicate [OF server_auth_der]
      length_concat_replicate encode_len_130 eku_13_der_def)

lemma length_eku_13_der: "length eku_13_der = 133"
  by (simp add: eku_13_der_def length_concat_replicate)

lemma ext_key_usage_der:
  "ObjectID_as_der \<lparr>name = Some ''extKeyUsage'', oid = [2, 5, 29, 37]\<rparr>
     = Inr [0x06, 0x03, 0x55, 0x1D, 0x25]"
  by (simp add: ObjectID_as_der_def bytearray1_def encode_int_def encode_len_def)

text \<open>
  Claim C9. \<open>CertExtension.as_der\<close> writes the OCTET STRING length with
  \<open>_encode_int\<close>, the base-128 arc encoding, not with \<open>_encode_len\<close>. For the
  133-octet inner encoding the octets after the tag 0x04 are 81 05, where the DER
  length of 133 is 81 85.
\<close>

theorem CertExtension_octet_string_length:
  "ExtendedKeyUsages_as_der eku_13 = Inr eku_13_der \<and>
   length eku_13_der = 133 \<and>
   encode_len 133 = Inr [0x81, 0x85] \<and>
   CertExtension_as_der ExtendedKeyUsages_as_der
     \<lparr>ext_id = \<lparr>name = Some ''extKeyUsage'', oid = [2, 5, 29, 37]\<rparr>, critical = True,
      extension = eku_13\<rparr>
   = Inr ([0x30, 0x81, 0x90, 0x06, 0x03, 0x55, 0x1D, 0x25, 0x01, 0x01, 0xFF, 0x04, 0x81, 0x05]
          @ eku_13_der)"
  by (simp add: CertExtension_as_der_def ext_key_usage_der eku_13_as_der length_eku_13_der
      encode_int_133 encode_len_133 encode_len_144)

section \<open>Claims about DistinguishedName\<close>

text \<open>
  A name with one SET holding one SEQUENCE of three elements: the OID 2.5.4.3, the
  PrintableString "A", and a second PrintableString "B".
\<close>

definition dn_two_values :: bytes where
  "dn_two_values =
     [0x30, 0x0F, 0x31, 0x0D, 0x30, 0x0B, 0x06, 0x03, 0x55, 0x04, 0x03,
      0x13, 0x01, 0x41, 0x13, 0x01, 0x42]"

text \<open>
  Claim C8. The value is sliced with \<open>seq_len\<close>, not \<open>part_len\<close>, so it takes
  everything left in the SEQUENCE and the assertion that nothing is left always
  holds: the second string element is not rejected, its octets 13 01 42 become part of
  the decoded string.
\<close>

theorem DistinguishedName_second_value_absorbed:
  "DistinguishedName_from_der dn_two_values =
     Inr (\<lparr>bits = [[(\<lparr>name = None, oid = [2, 5, 4, 3]\<rparr>, [0x41, 0x13, 0x01, 0x42])]]\<rparr>, [])"
  by (simp add: DistinguishedName_from_der_def dn_two_values_def decode_len_def py_assert_def
      dn_bits.simps dn_set_def dn_set_bits.simps dn_attribute_def ObjectID_from_der_def
      decode_arcs.simps decode_int_def utf8_decode.simps utf8_width_def)

section \<open>Claims about the PEM armor\<close>

lemma scan_begin_none:
  "\<forall>ln\<in>set fp. begin_label ln = None \<Longrightarrow> scan_begin prefix fp = (prefix @ fp, None, [])"
  by (induction fp arbitrary: prefix) simp_all

lemma scan_begin_found:
  "\<forall>ln\<in>set before. begin_label ln = None \<Longrightarrow> begin_label marker = Some label \<Longrightarrow>
   scan_begin prefix (before @ marker # fp) = (prefix @ before, Some label, fp)"
  by (induction before arbitrary: prefix) simp_all

lemma scan_end_none:
  "\<forall>ln\<in>set fp. \<not> is_end label ln \<Longrightarrow>
   scan_end label body m fp = (body @ fp, if fp = [] then m else Some False, [])"
  by (induction fp arbitrary: body m) simp_all

text \<open>
  Claim C10 (amended). \<open>decode_from_file\<close> returns None when no line of the stream
  is a BEGIN marker, and it returns None as well, not a distinct error, when a BEGIN
  marker is read, at least one line follows it, and none of the following lines is
  the END marker with the same label.
\<close>

theorem decode_from_file_not_found_twice:
  "((\<forall>ln\<in>set fp. begin_label ln = None) \<longrightarrow>
      decode_from_file b64decode fp = (Inr None, [])) \<and>
   ((\<forall>ln\<in>set before. begin_label ln = None) \<and> begin_label marker = Some label \<and>
    body \<noteq> [] \<and> (\<forall>ln\<in>set body. \<not> is_end label ln) \<longrightarrow>
      decode_from_file b64decode (before @ marker # body) = (Inr None, []))"
  by (simp add: decode_from_file_def scan_begin_none scan_begin_found scan_end_none)

text \<open>Lines of a stream, and a stand-in for the base64 decoder where it is not called.\<close>

definition begin_x :: string where "begin_x = ''-----BEGIN X-----'' @ [CHR 0x0A]"
definition body_line :: string where "body_line = ''AAAA'' @ [CHR 0x0A]"

definition no_b64decode :: "string \<Rightarrow> error + bytes" where
  "no_b64decode s = Inl BinasciiError"

theorem decode_from_file_not_found_twice_witness:
  "begin_label body_line = None \<and> begin_label begin_x = Some ''X'' \<and>
   \<not> is_end ''X'' body_line \<and>
   decode_from_file no_b64decode [body_line] = (Inr None, []) \<and>
   decode_from_file no_b64decode ([body_line] @ begin_x # [body_line, body_line])
     = (Inr None, [])"
proof -
  have 1: "begin_label body_line = None"
    by (simp add: begin_label_def body_line_def chomp_def)
  have 2: "begin_label begin_x = Some ''X''"
    by (simp add: begin_label_def begin_x_def chomp_def)
  have 3: "\<not> is_end ''X'' body_line"
    by (simp add: is_end_def body_line_def chomp_def)
  from decode_from_file_not_found_twice
    [where fp = "[body_line]" and before = "[body_line]" and marker = begin_x
      and label = "''X''" and body = "[body_line, body_line]" and b64decode = no_b64decode]
    1 2 3
  show ?thesis by simp
qed

text \<open>
  A stream with a BEGIN marker and no END marker gives the result of a stream with no
  marker at all.
\<close>

theorem decode_from_file_missing_end_counterexample:
  "decode_from_file no_b64decode [begin_x, body_line] = (Inr None, []) \<and>
   decode_from_file no_b64decode [body_line] = (Inr None, [])"
  by (simp add: decode_from_file_def begin_label_def is_end_def begin_x_def body_line_def
      chomp_def)

end
